theory Spec2Isabelle
  imports Complex_Main "HOL-Library.AList" "HOL-Library.Multiset"
begin

section \<open>Strings\<close>

text \<open>
  JavaScript strings are modelled as \<open>string\<close> (lists of 8-bit characters) and the
  development is about ASCII text: \<open>toLowerCase\<close> maps \<open>A\<close>..\<open>Z\<close> to
  \<open>a\<close>..\<open>z\<close>, and the whitespace class \<open>\s\<close> of the regular expressions is
  tab, line feed, vertical tab, form feed, carriage return and space.
\<close>

definition lower_char :: "char \<Rightarrow> char" where
  "lower_char c =
     (case map_of (zip ''ABCDEFGHIJKLMNOPQRSTUVWXYZ'' ''abcdefghijklmnopqrstuvwxyz'') c of
        Some l \<Rightarrow> l
      | None \<Rightarrow> c)"

definition toLowerCase :: "string \<Rightarrow> string" where
  "toLowerCase s = map lower_char s"

definition isSpace :: "char \<Rightarrow> bool" where
  "isSpace c = (c \<in> {CHR 0x09, CHR 0x0A, CHR 0x0B, CHR 0x0C, CHR 0x0D, CHR '' ''})"

text \<open>\<open>s.startsWith(n)\<close> and \<open>s.includes(n)\<close> on strings.\<close>

fun startsWith :: "string \<Rightarrow> string \<Rightarrow> bool" where
  "startsWith _ [] = True"
| "startsWith [] (n # ns) = False"
| "startsWith (h # hs) (n # ns) = (h = n \<and> startsWith hs ns)"

fun str_includes :: "string \<Rightarrow> string \<Rightarrow> bool" where
  "str_includes [] n = (n = [])"
| "str_includes (h # hs) n = (startsWith (h # hs) n \<or> str_includes hs n)"

text \<open>
  \<open>s.split(/\s+/)\<close>: the string is cut at every maximal run of whitespace. As in
  JavaScript, leading or trailing whitespace leaves an empty string at that end, and
  the empty string splits into one empty string. The flag says that the scan is inside
  a run of whitespace; the accumulator holds the current piece, reversed.
\<close>

fun split_ws_aux :: "bool \<Rightarrow> string \<Rightarrow> string \<Rightarrow> string list" where
  "split_ws_aux in_ws cur [] = [rev cur]"
| "split_ws_aux in_ws cur (c # cs) =
     (if isSpace c then
        (if in_ws then split_ws_aux True cur cs
         else rev cur # split_ws_aux True [] cs)
      else split_ws_aux False (c # cur) cs)"

definition split_ws :: "string \<Rightarrow> string list" where
  "split_ws s = split_ws_aux False [] s"

section \<open>Data model\<close>

datatype KnowledgeCategory =
  architecture | codebase | process | people | decision | tool | convention | domain | other

datatype SourceType = src_file | src_git | src_doc | src_manual | src_qa

record KnowledgeSource =
  src_type :: SourceType
  src_path :: "string option"
  src_ref :: "string option"

record KnowledgeEntry =
  eid :: string
  title :: string
  content :: string
  category :: KnowledgeCategory
  tags :: "string list"
  source :: KnowledgeSource
  confidence :: real
  createdAt :: string
  updatedAt :: string

datatype HandoverType = project | role | team

text \<open>The category names, as the strings the TypeScript union type holds.\<close>

fun category_name :: "KnowledgeCategory \<Rightarrow> string" where
  "category_name architecture = ''architecture''"
| "category_name codebase = ''codebase''"
| "category_name process = ''process''"
| "category_name people = ''people''"
| "category_name decision = ''decision''"
| "category_name tool = ''tool''"
| "category_name convention = ''convention''"
| "category_name domain = ''domain''"
| "category_name other = ''other''"

section \<open>File lock\<close>














section \<open>Knowledge store\<close>

































section \<open>Relevance ranker\<close>

text \<open>
  \<open>queryLower.split(/\s+/).filter(t => t.length > 2)\<close>, for the lower-cased query.
\<close>

definition queryTerms :: "string \<Rightarrow> string list" where
  "queryTerms query = filter (\<lambda>t. length t > 2) (split_ws (toLowerCase query))"

text \<open>
  The body of the \<open>for (const term of queryTerms)\<close> loop of \<open>findRelevantEntries\<close>,
  on the running \<open>score\<close>.
\<close>

definition score_term :: "KnowledgeEntry \<Rightarrow> string \<Rightarrow> nat \<Rightarrow> nat" where
  "score_term entry term score =
     (let titleLower = toLowerCase (title entry);
          contentLower = toLowerCase (content entry);
          tagsLower = map toLowerCase (tags entry);
          score = (if str_includes titleLower term then score + 3 else score);
          score = (if str_includes contentLower term then score + 1 else score);
          score = (if term \<in> set tagsLower then score + 4 else score);
          score = (if str_includes (toLowerCase (category_name (category entry))) term
                   then score + 2 else score)
      in score)"

text \<open>The value of \<open>score\<close> before it is weighted by the confidence.\<close>

definition raw_score :: "string \<Rightarrow> KnowledgeEntry \<Rightarrow> nat" where
  "raw_score query entry =
     (let queryLower = toLowerCase query;
          score = 0;
          titleLower = toLowerCase (title entry);
          contentLower = toLowerCase (content entry);
          score = (if str_includes titleLower queryLower then score + 10 else score);
          score = (if str_includes contentLower queryLower then score + 5 else score)
      in fold (score_term entry) (queryTerms query) score)"

text \<open>
  The raw score an entry obtains from \<open>findRelevantEntries\<close>: none when the query has
  no term, since the function then returns before it scores anything.
\<close>

definition raw_score_obtained :: "string \<Rightarrow> KnowledgeEntry \<Rightarrow> nat option" where
  "raw_score_obtained query entry =
     (if queryTerms query = [] then None else Some (raw_score query entry))"

text \<open>
  \<open>findRelevantEntries\<close>, the same function in the CLI module and in the MCP plugin.
  \<open>limit\<close> is a count. \<open>Array.prototype.sort\<close> is stable, and the comparator
  \<open>(a, b) => b.score - a.score\<close> orders by descending score: the result is the stable
  sort on the negated score. The confidence is a real number.
\<close>

definition findRelevantEntries :: "string \<Rightarrow> KnowledgeEntry list \<Rightarrow> nat \<Rightarrow> KnowledgeEntry list" where
  "findRelevantEntries query entries limit =
     (if queryTerms query = [] then take limit entries
      else
        (let scored = map (\<lambda>entry. (entry, real (raw_score query entry) * confidence entry)) entries
         in map fst (take limit (sort_key (\<lambda>s. - snd s) (filter (\<lambda>s. snd s > 0) scored)))))"

text \<open>
  The score as the ranking contract words it: 10 when the title contains the whole
  lower-cased query, 5 when the content does, and for every term 3 when it is in the
  title, 1 when it is in the content, 4 when it equals a tag case-insensitively and 2
  when it is a substring of the category name; the sum is multiplied by the
  confidence. Containment in the title and in the content is tested on their
  lower-cased text.
\<close>

definition term_points :: "KnowledgeEntry \<Rightarrow> string \<Rightarrow> nat" where
  "term_points entry term =
     (if str_includes (toLowerCase (title entry)) term then 3 else 0)
     + (if str_includes (toLowerCase (content entry)) term then 1 else 0)
     + (if \<exists>tag \<in> set (tags entry). toLowerCase tag = toLowerCase term then 4 else 0)
     + (if str_includes (category_name (category entry)) term then 2 else 0)"

definition contract_score :: "string \<Rightarrow> KnowledgeEntry \<Rightarrow> real" where
  "contract_score query entry =
     real ((if str_includes (toLowerCase (title entry)) (toLowerCase query) then 10 else 0)
           + (if str_includes (toLowerCase (content entry)) (toLowerCase query) then 5 else 0)
           + sum_list (map (term_points entry) (queryTerms query)))
     * confidence entry"

section \<open>Gap engine: the knowledge map\<close>

record KnowledgeMapItem =
  m_category :: KnowledgeCategory
  m_topics :: "string list"
  m_entryCount :: nat
  m_questionsAsked :: nat
  m_coverage :: nat

fun REQUIRED_CATEGORIES :: "HandoverType \<Rightarrow> KnowledgeCategory list" where
  "REQUIRED_CATEGORIES project = [architecture, codebase, tool, convention, process, decision]"
| "REQUIRED_CATEGORIES role = [process, people, tool, domain]"
| "REQUIRED_CATEGORIES team = [people, process, convention, tool]"

fun NICE_TO_HAVE_CATEGORIES :: "HandoverType \<Rightarrow> KnowledgeCategory list" where
  "NICE_TO_HAVE_CATEGORIES project = [people, domain]"
| "NICE_TO_HAVE_CATEGORIES role = [decision, convention]"
| "NICE_TO_HAVE_CATEGORIES team = [architecture, domain]"

text \<open>
  The coverage calculation in the body of the loop of \<open>buildKnowledgeMap\<close>:
  \<^verbatim>\<open>
    let coverage = 0;
    if (entryCount > 0) {
      coverage = Math.min(80, entryCount * 20);
      if (questions > 0) { coverage += Math.min(20, questions * 10); }
    }
    coverage = Math.min(100, coverage);
  \<close>
  Both counts come from counters that start at 0 and are incremented, so they are
  natural numbers.
\<close>

definition category_coverage :: "nat \<Rightarrow> nat \<Rightarrow> nat" where
  "category_coverage entryCount questions =
     (let coverage = 0;
          coverage =
            (if entryCount > 0 then
               (let coverage = min 80 (entryCount * 20) in
                if questions > 0 then coverage + min 20 (questions * 10) else coverage)
             else coverage)
      in min 100 coverage)"

text \<open>
  A JavaScript \<open>Set\<close> keeps insertion order and ignores a value it already holds; a
  \<open>Map\<close> keeps the position of a key that is set again (\<open>AList.update\<close>).
\<close>

definition set_add :: "'a list \<Rightarrow> 'a \<Rightarrow> 'a list" where
  "set_add xs x = (if x \<in> set xs then xs else xs @ [x])"

definition count_entry :: "KnowledgeEntry \<Rightarrow> (KnowledgeCategory \<times> nat) list \<Rightarrow> (KnowledgeCategory \<times> nat) list" where
  "count_entry e entryCounts =
     AList.update (category e)
       ((case map_of entryCounts (category e) of None \<Rightarrow> 0 | Some n \<Rightarrow> n) + 1) entryCounts"

definition topic_entry :: "KnowledgeEntry \<Rightarrow> (KnowledgeCategory \<times> string list) list \<Rightarrow> (KnowledgeCategory \<times> string list) list" where
  "topic_entry e topicsByCategory =
     (let have = (case map_of topicsByCategory (category e) of None \<Rightarrow> [] | Some ts \<Rightarrow> ts)
      in AList.update (category e) (set_add have (title e)) topicsByCategory)"

text \<open>
  \<open>buildKnowledgeMap\<close>. The per-category question counts are the result of
  \<open>countQuestionsByCategory\<close>, a \<open>Map\<close> from categories to counts; it is taken as
  the argument \<open>questionCounts\<close>.
\<close>

definition buildKnowledgeMap ::
  "(KnowledgeCategory \<rightharpoonup> nat) \<Rightarrow> KnowledgeEntry list \<Rightarrow> HandoverType \<Rightarrow> KnowledgeMapItem list" where
  "buildKnowledgeMap questionCounts entries handoverType =
     (let required = REQUIRED_CATEGORIES handoverType;
          niceToHave = NICE_TO_HAVE_CATEGORIES handoverType;
          relevantCategories = required @ niceToHave;
          entryCounts = fold count_entry entries [];
          topicsByCategory = fold topic_entry entries [];
          allCategoriesPresent = fold (\<lambda>c s. set_add s c) (relevantCategories @ map fst entryCounts) []
      in map (\<lambda>cat.
            (let entryCount = (case map_of entryCounts cat of None \<Rightarrow> 0 | Some n \<Rightarrow> n);
                 questions = (case questionCounts cat of None \<Rightarrow> 0 | Some n \<Rightarrow> n);
                 topics = (case map_of topicsByCategory cat of None \<Rightarrow> [] | Some ts \<Rightarrow> ts)
             in \<lparr> m_category = cat, m_topics = topics, m_entryCount = entryCount,
                  m_questionsAsked = questions,
                  m_coverage = category_coverage entryCount questions \<rparr>))
          allCategoriesPresent)"

section \<open>Feedback analysis\<close>


























section \<open>Q&A response parsing\<close>

text \<open>
  \<open>RegExp.prototype.exec\<close> without the sticky flag tries the start positions from left
  to right and returns the first match; \<open>match_at\<close> is the match of the pattern at the start
  of a string, \<open>None\<close> when it does not match there.
\<close>

fun regex_exec :: "(string \<Rightarrow> 'a option) \<Rightarrow> string \<Rightarrow> 'a option" where
  "regex_exec match_at [] = match_at []"
| "regex_exec match_at (c # cs) =
     (case match_at (c # cs) of Some m \<Rightarrow> Some m | None \<Rightarrow> regex_exec match_at cs)"

text \<open>
  \<open>/CONFIDENCE:\s*(low|medium|high)/i\<close> at the start of \<open>s\<close>; the result is the text
  of the group. The keyword has 11 characters. \<open>\s*\<close> is greedy, and giving back
  whitespace cannot help since no alternative starts with whitespace.
\<close>

definition confidence_at :: "string \<Rightarrow> string option" where
  "confidence_at s =
     (if startsWith (toLowerCase s) ''confidence:'' then
        (let rest = dropWhile isSpace (drop 11 s) in
         if startsWith (toLowerCase rest) ''low'' then Some (take 3 rest)
         else if startsWith (toLowerCase rest) ''medium'' then Some (take 6 rest)
         else if startsWith (toLowerCase rest) ''high'' then Some (take 4 rest)
         else None)
      else None)"

definition parseConfidence :: "string \<Rightarrow> real" where
  "parseConfidence response =
     (case regex_exec confidence_at response of
        None \<Rightarrow> 5 / 10
      | Some confidenceMatch \<Rightarrow>
          (let level = toLowerCase confidenceMatch in
           if level = ''high'' then 9 / 10
           else if level = ''medium'' then 6 / 10
           else if level = ''low'' then 3 / 10
           else 5 / 10))"

text \<open>The characters that \<open>.\<close> does not match: line feed and carriage return.\<close>

definition isLineTerminator :: "char \<Rightarrow> bool" where
  "isLineTerminator c = (c \<in> {CHR 0x0A, CHR 0x0D})"

text \<open>
  \<open>/FOLLOW_UPS:\s*(.+)/i\<close> at the start of \<open>s\<close>; the result is the text of the group.
  After the keyword (11 characters) \<open>\s*\<close> takes all the whitespace, line ends
  included, and \<open>.+\<close> the rest of the line it stops in. When only whitespace follows
  the keyword, \<open>\s*\<close> gives characters back until \<open>.+\<close> can match one: the group is
  the last whitespace character that is not a line terminator, and there is no match
  when there is none.
\<close>

definition followups_at :: "string \<Rightarrow> string option" where
  "followups_at s =
     (if startsWith (toLowerCase s) ''follow_ups:'' then
        (let after = drop 11 s; rest = dropWhile isSpace after in
         if rest \<noteq> [] then Some (takeWhile (\<lambda>c. \<not> isLineTerminator c) rest)
         else (case filter (\<lambda>c. \<not> isLineTerminator c) (rev after) of
                 [] \<Rightarrow> None
               | c # _ \<Rightarrow> Some [c]))
      else None)"

text \<open>\<open>s.split(d)\<close> for a one-character separator, and \<open>s.trim()\<close>.\<close>

fun split_on_aux :: "char \<Rightarrow> string \<Rightarrow> string \<Rightarrow> string list" where
  "split_on_aux d cur [] = [rev cur]"
| "split_on_aux d cur (c # cs) =
     (if c = d then rev cur # split_on_aux d [] cs else split_on_aux d (c # cur) cs)"

definition split_on :: "char \<Rightarrow> string \<Rightarrow> string list" where
  "split_on d s = split_on_aux d [] s"

definition trim :: "string \<Rightarrow> string" where
  "trim s = rev (dropWhile isSpace (rev (dropWhile isSpace s)))"

definition parseFollowUps :: "string \<Rightarrow> string list" where
  "parseFollowUps response =
     (case regex_exec followups_at response of
        None \<Rightarrow> []
      | Some followUpMatch \<Rightarrow>
          filter (\<lambda>q. length q > 0) (map trim (split_on (CHR ''|'') followUpMatch)))"

text \<open>
  The marker lines as the response contract describes them. A confidence marker is the
  keyword \<open>CONFIDENCE:\<close> in any case, whitespace, and one of the levels in any case; it
  starts after \<open>pre\<close>. A follow-up marker is the keyword \<open>FOLLOW_UPS:\<close> in any case,
  whitespace, and text that starts with the character \<open>x\<close>, not a whitespace.
\<close>

definition confidence_marker :: "string \<Rightarrow> string \<Rightarrow> string \<Rightarrow> string \<Rightarrow> string \<Rightarrow> string \<Rightarrow> bool" where
  "confidence_marker response pre m ws lvl post =
     (response = pre @ m @ ws @ lvl @ post
      \<and> toLowerCase m = ''confidence:''
      \<and> list_all isSpace ws
      \<and> toLowerCase lvl \<in> {''low'', ''medium'', ''high''})"

definition followups_marker :: "string \<Rightarrow> string \<Rightarrow> string \<Rightarrow> string \<Rightarrow> char \<Rightarrow> string \<Rightarrow> bool" where
  "followups_marker response pre m ws x post =
     (response = pre @ m @ ws @ x # post
      \<and> toLowerCase m = ''follow_ups:''
      \<and> list_all isSpace ws
      \<and> \<not> isSpace x)"

definition level_value :: "string \<Rightarrow> real" where
  "level_value level =
     (if level = ''high'' then 9 / 10 else if level = ''medium'' then 6 / 10 else 3 / 10)"

section \<open>Example data\<close>









definition ex_flow_titled :: KnowledgeEntry where
  "ex_flow_titled =
     \<lparr>eid = ''k2'', title = ''Authentication Flow'', content = ''How users sign in'',
      category = architecture, tags = [],
      source = \<lparr>src_type = src_manual, src_path = None, src_ref = None\<rparr>,
      confidence = 9 / 10, createdAt = ''t'', updatedAt = ''t''\<rparr>"

definition ex_sure :: KnowledgeEntry where
  "ex_sure = ex_flow_titled\<lparr>confidence := 1\<rparr>"

definition ex_unsure :: KnowledgeEntry where
  "ex_unsure = ex_flow_titled\<lparr>confidence := 1 / 2\<rparr>"





definition ex_plain :: string where
  "ex_plain = ''It runs on port 8080.''"

definition ex_marked :: string where
  "ex_marked = ''It runs on port 8080.\<newline>CONFIDENCE: High\<newline>FOLLOW_UPS: Which host? | Who owns it?''"






section \<open>Gap engine: coverage bounds\<close>

lemma category_coverage_le: "category_coverage entryCount questions \<le> 100"
  by (simp add: category_coverage_def Let_def)

lemma buildKnowledgeMap_coverage:
  "item \<in> set (buildKnowledgeMap questionCounts entries handoverType) \<Longrightarrow>
   m_coverage item = category_coverage (m_entryCount item) (m_questionsAsked item)"
  by (auto simp: buildKnowledgeMap_def Let_def)

text \<open>
  Claim C7. For all entry counts and question counts (natural numbers, so both are
  at least 0) the per-category coverage lies between 0 and 100; with a positive
  entry count it is
  \<open>min 100 (min 80 (entryCount * 20) + (if questions > 0 then min 20 (questions * 10) else 0))\<close>;
  with entry count 0 it is 0 whatever the question count. Every row of the knowledge
  map built by the gap engine carries the coverage computed this way from its own
  entry count and question count.
\<close>

theorem coverage_bounds:
  "0 \<le> category_coverage entryCount questions
   \<and> category_coverage entryCount questions \<le> 100
   \<and> (entryCount > 0 \<longrightarrow>
        category_coverage entryCount questions =
          min 100 (min 80 (entryCount * 20) + (if questions > 0 then min 20 (questions * 10) else 0)))
   \<and> category_coverage 0 questions = 0
   \<and> (\<forall>item \<in> set (buildKnowledgeMap questionCounts entries handoverType).
         m_coverage item = category_coverage (m_entryCount item) (m_questionsAsked item)
         \<and> m_coverage item \<le> 100
         \<and> (m_entryCount item = 0 \<longrightarrow> m_coverage item = 0))"
proof -
  have zero: "category_coverage 0 q = 0" for q
    by (simp add: category_coverage_def)
  have pos: "entryCount > 0 \<longrightarrow>
        category_coverage entryCount questions =
          min 100 (min 80 (entryCount * 20) + (if questions > 0 then min 20 (questions * 10) else 0))"
    by (simp add: category_coverage_def Let_def)
  have rows: "\<forall>item \<in> set (buildKnowledgeMap questionCounts entries handoverType).
         m_coverage item = category_coverage (m_entryCount item) (m_questionsAsked item)
         \<and> m_coverage item \<le> 100
         \<and> (m_entryCount item = 0 \<longrightarrow> m_coverage item = 0)"
    using buildKnowledgeMap_coverage category_coverage_le zero by metis
  show ?thesis
    using zero pos rows category_coverage_le by simp
qed

theorem coverage_bounds_witness:
  "category_coverage 3 1 = 70 \<and> category_coverage 0 5 = 0 \<and> category_coverage 7 4 = 100
   \<and> map m_coverage (buildKnowledgeMap [architecture \<mapsto> 2]
        [\<lparr> eid = ''a'', title = ''Auth design'', content = ''x'', category = architecture,
           tags = [],
           source = \<lparr> src_type = src_file, src_path = Some ''src/auth.ts'', src_ref = None \<rparr>,
           confidence = 1, createdAt = '''', updatedAt = '''' \<rparr>] project)
       = [40, 0, 0, 0, 0, 0, 0, 0]"
  using coverage_bounds [of 3 1 "[architecture \<mapsto> 2]"
        "[\<lparr> eid = ''a'', title = ''Auth design'', content = ''x'', category = architecture,
           tags = [],
           source = \<lparr> src_type = src_file, src_path = Some ''src/auth.ts'', src_ref = None \<rparr>,
           confidence = 1, createdAt = '''', updatedAt = '''' \<rparr>]" project]
  by (simp add: category_coverage_def buildKnowledgeMap_def count_entry_def topic_entry_def
        set_add_def)

section \<open>Knowledge store: deduplication\<close>


lemma map_snd_update_length: "length (AList.update k v al) \<le> Suc (length al)"
  by (induction al) auto
















section \<open>Knowledge store: operations on an id that has no record\<close>



section \<open>Knowledge store: the index and the entry records\<close>

















section \<open>Relevance ranker: the ranking contract\<close>

lemma lower_char_idem: "lower_char (lower_char c) = lower_char c"
  by (auto simp: lower_char_def split: option.splits if_splits)

lemma toLowerCase_idem: "toLowerCase (toLowerCase s) = toLowerCase s"
  by (simp add: toLowerCase_def lower_char_idem)

lemma split_ws_aux_chars:
  "p \<in> set (split_ws_aux in_ws cur s) \<Longrightarrow> set p \<subseteq> set cur \<union> set s"
  by (induction in_ws cur s rule: split_ws_aux.induct) (auto split: if_splits)

lemma split_ws_lower:
  assumes "p \<in> set (split_ws (toLowerCase s))"
  shows "toLowerCase p = p"
proof -
  have "set p \<subseteq> set (toLowerCase s)"
    using split_ws_aux_chars [of p False "[]" "toLowerCase s"] assms by (simp add: split_ws_def)
  then have "\<forall>c \<in> set p. lower_char c = c"
    by (auto simp: toLowerCase_def lower_char_idem)
  then show ?thesis
    by (simp add: toLowerCase_def map_idI)
qed

lemma queryTerms_lower: "t \<in> set (queryTerms query) \<Longrightarrow> toLowerCase t = t"
  by (auto simp: queryTerms_def dest: split_ws_lower)

lemma category_name_lower: "toLowerCase (category_name c) = category_name c"
  by (cases c) (simp_all add: toLowerCase_def lower_char_def)

lemma score_term_points:
  "toLowerCase term = term \<Longrightarrow> score_term entry term score = score + term_points entry term"
  by (auto simp: score_term_def term_points_def Let_def category_name_lower)

lemma fold_score_term:
  "\<forall>t \<in> set ts. toLowerCase t = t \<Longrightarrow>
   fold (score_term entry) ts score = score + sum_list (map (term_points entry) ts)"
  by (induction ts arbitrary: score) (simp_all add: score_term_points)

lemma weighted_score:
  "real (raw_score query entry) * confidence entry = contract_score query entry"
  by (simp add: raw_score_def contract_score_def Let_def fold_score_term queryTerms_lower)

text \<open>
  The ranked list before truncation: the entries with a positive contract score, in the
  order of the stable sort by descending score.
\<close>

lemma findRelevantEntries_ranked:
  assumes "queryTerms query \<noteq> []"
  shows "findRelevantEntries query entries limit =
           take limit (map fst (sort_key (\<lambda>s. - snd s)
             (map (\<lambda>e. (e, contract_score query e))
                (filter (\<lambda>e. 0 < contract_score query e) entries))))"
  using assms
  by (simp add: findRelevantEntries_def Let_def weighted_score filter_map comp_def take_map)

lemma ranked_mset:
  "mset (map fst (sort_key (\<lambda>s. - snd s) (map (\<lambda>e. (e, f e)) es))) = mset es"
  by (simp add: multiset.map_comp comp_def)

lemma ranked_sorted:
  "sorted_wrt (\<lambda>a b. f b \<le> f a)
     (map fst (sort_key (\<lambda>s. - snd s) (map (\<lambda>e. (e, (f e :: real))) es)))"
proof -
  let ?L = "sort_key (\<lambda>s. - snd s) (map (\<lambda>e. (e, f e)) es)"
  have pairs: "\<forall>s \<in> set ?L. snd s = f (fst s)"
    by auto
  have "sorted (map (\<lambda>s. - snd s) ?L)"
    by (rule sorted_sort_key)
  then have "sorted_wrt (\<lambda>s t. - snd s \<le> - snd t) ?L"
    by (simp add: sorted_map)
  then have "sorted_wrt (\<lambda>s t. f (fst t) \<le> f (fst s)) ?L"
    using pairs by (auto elim!: sorted_wrt_mono_rel [rotated])
  then show ?thesis
    by (simp add: sorted_wrt_map)
qed

lemma ranked_stable:
  "filter (\<lambda>e. f e = k) (map fst (sort_key (\<lambda>s. - snd s) (map (\<lambda>e. (e, (f e :: real))) es)))
   = filter (\<lambda>e. f e = k) es"
proof -
  let ?L = "sort_key (\<lambda>s. - snd s) (map (\<lambda>e. (e, f e)) es)"
  have pairs: "\<forall>s \<in> set ?L. snd s = f (fst s)"
    by auto
  have "filter (\<lambda>e. f e = k) (map fst ?L) = map fst (filter (\<lambda>s. f (fst s) = k) ?L)"
    by (simp add: filter_map comp_def)
  also have "filter (\<lambda>s. f (fst s) = k) ?L = filter (\<lambda>s. - snd s = - k) ?L"
    using pairs by (intro filter_cong) auto
  also have "\<dots> = filter (\<lambda>s. - snd s = - k) (map (\<lambda>e. (e, f e)) es)"
    by (rule sort_key_stable)
  also have "map fst \<dots> = filter (\<lambda>e. f e = k) es"
    by (induction es) auto
  finally show ?thesis .
qed

lemma rank_contract_aux:
  assumes "queryTerms query \<noteq> []"
  shows "\<exists>ranked.
            mset ranked = mset (filter (\<lambda>e. 0 < contract_score query e) entries)
            \<and> sorted_wrt (\<lambda>a b. contract_score query b \<le> contract_score query a) ranked
            \<and> (\<forall>k. filter (\<lambda>e. contract_score query e = k) ranked
                   = filter (\<lambda>e. contract_score query e = k)
                       (filter (\<lambda>e. 0 < contract_score query e) entries))
            \<and> findRelevantEntries query entries limit = take limit ranked"
proof -
  let ?pos = "filter (\<lambda>e. 0 < contract_score query e) entries"
  let ?ranked = "map fst (sort_key (\<lambda>s. - snd s) (map (\<lambda>e. (e, contract_score query e)) ?pos))"
  have "mset ?ranked = mset ?pos"
    by (rule ranked_mset)
  moreover have "sorted_wrt (\<lambda>a b. contract_score query b \<le> contract_score query a) ?ranked"
    by (rule ranked_sorted)
  moreover have "\<forall>k. filter (\<lambda>e. contract_score query e = k) ?ranked
                   = filter (\<lambda>e. contract_score query e = k) ?pos"
    by (simp add: ranked_stable)
  moreover have "findRelevantEntries query entries limit = take limit ?ranked"
    using assms by (rule findRelevantEntries_ranked)
  ultimately show ?thesis
    by blast
qed



section \<open>Relevance ranker: monotone in the confidence\<close>

lemma score_term_confidence: "score_term (e\<lparr>confidence := c\<rparr>) = score_term e"
  by (intro ext) (simp add: score_term_def)

lemma term_points_confidence: "term_points (e\<lparr>confidence := c\<rparr>) = term_points e"
  by (rule ext) (simp add: term_points_def)

lemma contract_score_confidence:
  "contract_score query (e\<lparr>confidence := c\<rparr>) * confidence e = contract_score query e * c"
  by (simp add: contract_score_def term_points_confidence)

text \<open>
  Claim C6. Fix a query and two entries that differ in their confidence only, 1.0 for
  \<open>hi\<close> and 0.5 for \<open>lo\<close>, where \<open>hi\<close> obtains the positive raw score \<open>S\<close>.
  Then \<open>lo\<close> obtains the same raw score, in the result \<open>hi\<close> never stands at or
  after a position of \<open>lo\<close>, and when \<open>hi\<close> is among the entries, \<open>lo\<close> is in
  the result only if \<open>hi\<close> is.
\<close>

theorem confidence_monotone:
  assumes obtained: "raw_score_obtained query hi = Some S"
    and positive_score: "0 < S"
    and hi: "confidence hi = 1"
    and lo: "lo = hi\<lparr>confidence := 1 / 2\<rparr>"
  shows "raw_score_obtained query lo = Some S
         \<and> (\<forall>i j. i < length (findRelevantEntries query entries limit)
               \<and> j < length (findRelevantEntries query entries limit)
               \<and> findRelevantEntries query entries limit ! i = lo
               \<and> findRelevantEntries query entries limit ! j = hi \<longrightarrow> j < i)
         \<and> (hi \<in> set entries \<and> lo \<in> set (findRelevantEntries query entries limit)
              \<longrightarrow> hi \<in> set (findRelevantEntries query entries limit))"
proof -
  let ?f = "contract_score query"
  let ?res = "findRelevantEntries query entries limit"
  from obtained have terms: "queryTerms query \<noteq> []" and S: "raw_score query hi = S"
    by (simp_all add: raw_score_obtained_def split: if_splits)
  from positive_score S have raw: "0 < raw_score query hi"
    by simp
  have "raw_score query lo = raw_score query hi"
    using lo by (simp add: raw_score_def Let_def score_term_confidence)
  with terms S have same: "raw_score_obtained query lo = Some S"
    by (simp add: raw_score_obtained_def)
  obtain ranked where ms: "mset ranked = mset (filter (\<lambda>e. 0 < ?f e) entries)"
    and srt: "sorted_wrt (\<lambda>a b. ?f b \<le> ?f a) ranked"
    and res: "?res = take limit ranked"
    using rank_contract_aux [OF terms] by blast
  have fhi: "?f hi = real (raw_score query hi)"
    using weighted_score [of query hi] hi by simp
  have flo: "?f lo = real (raw_score query hi) / 2"
    using contract_score_confidence [where query = query and e = hi and c = "1 / 2"] hi lo fhi by simp
  have less: "?f lo < ?f hi"
    using fhi flo raw by simp
  have neq: "lo \<noteq> hi"
    using less by auto
  have order: "j < i" if "i < length ranked" "j < length ranked" "ranked ! i = lo" "ranked ! j = hi"
    for i j
  proof (rule ccontr)
    assume "\<not> j < i"
    with neq that have "i < j" by (metis linorder_neqE_nat)
    with srt that have "?f (ranked ! j) \<le> ?f (ranked ! i)"
      using sorted_wrt_iff_nth_less [of "\<lambda>a b. ?f b \<le> ?f a" ranked] by blast
    with that less show False by simp
  qed
  have first: "\<forall>i j. i < length ?res \<and> j < length ?res \<and> ?res ! i = lo \<and> ?res ! j = hi \<longrightarrow> j < i"
    using order by (auto simp: res)
  have second: "hi \<in> set entries \<and> lo \<in> set ?res \<longrightarrow> hi \<in> set ?res"
  proof
    assume h: "hi \<in> set entries \<and> lo \<in> set ?res"
    then obtain i where i: "i < length ranked" "i < limit" "ranked ! i = lo"
      by (auto simp: res in_set_conv_nth)
    have "hi \<in> set (filter (\<lambda>e. 0 < ?f e) entries)"
      using h fhi raw by simp
    then have "hi \<in> set ranked"
      using ms by (metis set_mset_mset)
    then obtain j where j: "j < length ranked" "ranked ! j = hi"
      by (auto simp: in_set_conv_nth)
    with i order have "j < i" by blast
    with i j show "hi \<in> set ?res"
      by (auto simp: res in_set_conv_nth intro!: exI [where x = j])
  qed
  from same first second show ?thesis by blast
qed

theorem confidence_monotone_witness:
  "raw_score_obtained ''Authentication'' ex_sure = Some 13
   \<and> raw_score_obtained ''Authentication'' ex_unsure = Some 13
   \<and> confidence ex_sure = 1
   \<and> ex_unsure = ex_sure\<lparr>confidence := 1 / 2\<rparr>
   \<and> findRelevantEntries ''Authentication'' [ex_unsure, ex_sure] 10 = [ex_sure, ex_unsure]
   \<and> findRelevantEntries ''Authentication'' [ex_unsure, ex_sure] 1 = [ex_sure]"
proof -
  have obtained: "raw_score_obtained ''Authentication'' ex_sure = Some 13"
    by code_simp
  have hi: "confidence ex_sure = 1"
    by (simp add: ex_sure_def)
  have lo: "ex_unsure = ex_sure\<lparr>confidence := 1 / 2\<rparr>"
    by (simp add: ex_sure_def ex_unsure_def)
  have both: "findRelevantEntries ''Authentication'' [ex_unsure, ex_sure] 10 = [ex_sure, ex_unsure]"
    by code_simp
  have top: "findRelevantEntries ''Authentication'' [ex_unsure, ex_sure] 1 = [ex_sure]"
    by code_simp
  from confidence_monotone [OF obtained _ hi lo, of "[ex_unsure, ex_sure]" 10]
  have same: "raw_score_obtained ''Authentication'' ex_unsure = Some 13"
    by simp
  from obtained same hi both top show ?thesis
    using lo by blast
qed

section \<open>File lock: acquisition\<close>














section \<open>Q&A response parsing: the marker lines\<close>

lemma regex_exec_None:
  "regex_exec f r = None \<longleftrightarrow> (\<forall>k \<le> length r. f (drop k r) = None)"
proof (induction r)
  case Nil
  then show ?case by simp
next
  case (Cons c cs)
  have "(\<forall>k \<le> length (c # cs). f (drop k (c # cs)) = None)
          \<longleftrightarrow> f (c # cs) = None \<and> (\<forall>k \<le> length cs. f (drop k cs) = None)"
  proof
    assume h: "\<forall>k \<le> length (c # cs). f (drop k (c # cs)) = None"
    have "f (c # cs) = None" using h [rule_format, of 0] by simp
    moreover have "f (drop k cs) = None" if "k \<le> length cs" for k
      using h [rule_format, of "Suc k"] that by simp
    ultimately show "f (c # cs) = None \<and> (\<forall>k \<le> length cs. f (drop k cs) = None)" by blast
  next
    assume h: "f (c # cs) = None \<and> (\<forall>k \<le> length cs. f (drop k cs) = None)"
    show "\<forall>k \<le> length (c # cs). f (drop k (c # cs)) = None"
    proof (intro allI impI)
      fix k assume "k \<le> length (c # cs)"
      with h show "f (drop k (c # cs)) = None" by (cases k) auto
    qed
  qed
  with Cons.IH show ?case by (simp split: option.splits)
qed

lemma regex_exec_Some:
  "regex_exec f r = Some m \<Longrightarrow>
   \<exists>k \<le> length r. f (drop k r) = Some m \<and> (\<forall>j < k. f (drop j r) = None)"
proof (induction r)
  case Nil
  then show ?case by simp
next
  case (Cons c cs)
  show ?case
  proof (cases "f (c # cs)")
    case (Some a)
    with Cons.prems have "f (drop 0 (c # cs)) = Some m" by simp
    then show ?thesis by (intro exI [where x = 0]) simp
  next
    case None
    with Cons.prems have "regex_exec f cs = Some m" by simp
    with Cons.IH obtain k where k: "k \<le> length cs" "f (drop k cs) = Some m"
      "\<forall>j < k. f (drop j cs) = None" by blast
    have "\<forall>j < Suc k. f (drop j (c # cs)) = None"
    proof (intro allI impI)
      fix j assume "j < Suc k"
      with k(3) None show "f (drop j (c # cs)) = None" by (cases j) auto
    qed
    with k show ?thesis by (intro exI [where x = "Suc k"]) simp
  qed
qed

lemma startsWith_take: "startsWith s p \<longleftrightarrow> take (length p) s = p"
  by (induction s p rule: startsWith.induct) auto

lemma toLowerCase_append: "toLowerCase (a @ b) = toLowerCase a @ toLowerCase b"
  by (simp add: toLowerCase_def)

lemma toLowerCase_take: "toLowerCase (take n s) = take n (toLowerCase s)"
  by (simp add: toLowerCase_def take_map)

lemma length_toLowerCase: "length (toLowerCase s) = length s"
  by (simp add: toLowerCase_def)

lemma space_is_lower:
  assumes "isSpace c"
  shows "lower_char c = c"
proof -
  from assms consider "c = CHR 0x09" | "c = CHR 0x0A" | "c = CHR 0x0B" | "c = CHR 0x0C"
    | "c = CHR 0x0D" | "c = CHR '' ''"
    unfolding isSpace_def by blast
  then show ?thesis
    by cases (simp_all add: lower_char_def)
qed

lemma all_space_dropWhile: "list_all isSpace ws \<Longrightarrow> \<not> isSpace x \<Longrightarrow>
   dropWhile isSpace (ws @ x # post) = x # post"
  by (induction ws) auto

lemma split_keyword:
  assumes "startsWith (toLowerCase s) kw"
  shows "\<exists>m. s = m @ drop (length kw) s \<and> toLowerCase m = kw"
proof -
  have "toLowerCase (take (length kw) s) = kw"
    using assms by (simp add: startsWith_take toLowerCase_take)
  then show ?thesis
    by (intro exI [where x = "take (length kw) s"]) simp
qed

lemma keyword_first:
  assumes "toLowerCase m = kw"
  shows "startsWith (toLowerCase (m @ t)) kw \<and> drop (length kw) (m @ t) = t"
proof -
  have "length m = length kw" using assms length_toLowerCase by metis
  with assms show ?thesis
    by (simp add: startsWith_take toLowerCase_append)
qed


lemma confidence_kw_length: "length ''confidence:'' = 11"
  by simp

lemma followups_kw_length: "length ''follow_ups:'' = 11"
  by simp

lemma level_starts:
  assumes "toLowerCase lvl \<in> {''low'', ''medium'', ''high''}"
  shows "\<exists>x xs. lvl = x # xs \<and> \<not> isSpace x"
proof -
  from assms obtain x xs where lvl: "lvl = x # xs"
    by (cases lvl) (auto simp: toLowerCase_def)
  from assms lvl have low: "lower_char x \<in> {CHR ''l'', CHR ''m'', CHR ''h''}"
    by (auto simp: toLowerCase_def)
  have "\<not> isSpace x"
  proof
    assume "isSpace x"
    with low space_is_lower have "x \<in> {CHR ''l'', CHR ''m'', CHR ''h''}" by simp
    with \<open>isSpace x\<close> show False by (auto simp: isSpace_def)
  qed
  with lvl show ?thesis by blast
qed

lemma confidence_at_marker:
  assumes m: "toLowerCase m = ''confidence:''"
    and ws: "list_all isSpace ws"
    and lvl: "toLowerCase lvl \<in> {''low'', ''medium'', ''high''}"
  shows "confidence_at (m @ ws @ lvl @ post) = Some lvl"
proof -
  from keyword_first [OF m, of "ws @ lvl @ post", unfolded confidence_kw_length]
  have kw: "startsWith (toLowerCase (m @ ws @ lvl @ post)) ''confidence:''"
    and after: "drop 11 (m @ ws @ lvl @ post) = ws @ lvl @ post"
    by blast+
  from level_starts [OF lvl] obtain x xs where x: "lvl = x # xs" "\<not> isSpace x" by blast
  have rest: "dropWhile isSpace (ws @ lvl @ post) = lvl @ post"
    using all_space_dropWhile [OF ws x(2), of "xs @ post"] x(1) by simp
  have len: "length lvl = length (toLowerCase lvl)"
    by (simp add: length_toLowerCase)
  from lvl consider "toLowerCase lvl = ''low''" | "toLowerCase lvl = ''medium''"
    | "toLowerCase lvl = ''high''" by blast
  then show ?thesis
  proof cases
    case 1
    with len have "length lvl = 3" by simp
    with 1 kw after rest show ?thesis
      by (simp add: confidence_at_def Let_def startsWith_take toLowerCase_append)
  next
    case 2
    with len have "length lvl = 6" by simp
    with 2 kw after rest show ?thesis
      by (simp add: confidence_at_def Let_def startsWith_take toLowerCase_append)
  next
    case 3
    with len have "length lvl = 4" by simp
    with 3 kw after rest show ?thesis
      by (simp add: confidence_at_def Let_def startsWith_take toLowerCase_append)
  qed
qed

lemma level_found:
  assumes "startsWith (toLowerCase rest) l"
  shows "rest = take (length l) rest @ drop (length l) rest
         \<and> toLowerCase (take (length l) rest) = l"
  using assms by (simp add: startsWith_take toLowerCase_take)

lemma confidence_at_Some:
  assumes "confidence_at s = Some lvl"
  shows "\<exists>m ws post. s = m @ ws @ lvl @ post \<and> toLowerCase m = ''confidence:''
           \<and> list_all isSpace ws \<and> toLowerCase lvl \<in> {''low'', ''medium'', ''high''}"
proof -
  from assms have kw: "startsWith (toLowerCase s) ''confidence:''"
    by (simp add: confidence_at_def split: if_splits)
  from split_keyword [OF kw, unfolded confidence_kw_length]
  obtain m where m: "s = m @ drop 11 s" "toLowerCase m = ''confidence:''"
    by blast
  let ?t = "drop 11 s"
  let ?ws = "takeWhile isSpace ?t"
  let ?rest = "dropWhile isSpace ?t"
  have t: "?t = ?ws @ ?rest" by simp
  have ws: "list_all isSpace ?ws"
    by (simp add: list_all_iff) (metis set_takeWhileD)
  define a where "a = startsWith (toLowerCase ?rest) ''low''"
  define b where "b = startsWith (toLowerCase ?rest) ''medium''"
  define c where "c = startsWith (toLowerCase ?rest) ''high''"
  have "confidence_at s =
          (if a then Some (take 3 ?rest) else if b then Some (take 6 ?rest)
           else if c then Some (take 4 ?rest) else None)"
    using kw by (simp only: confidence_at_def Let_def a_def b_def c_def if_True)
  with assms consider "a" "lvl = take 3 ?rest" | "b" "lvl = take 6 ?rest" | "c" "lvl = take 4 ?rest"
    by (cases a; cases b; cases c) simp_all
  then obtain l where l: "l \<in> {''low'', ''medium'', ''high''}"
    "startsWith (toLowerCase ?rest) l" "lvl = take (length l) ?rest"
  proof cases
    case 1
    then show ?thesis using that [of "''low''"] by (simp add: a_def eval_nat_numeral)
  next
    case 2
    then show ?thesis using that [of "''medium''"] by (simp add: b_def eval_nat_numeral)
  next
    case 3
    then show ?thesis using that [of "''high''"] by (simp add: c_def eval_nat_numeral)
  qed
  from level_found [OF l(2)] l(3)
  have "?rest = lvl @ drop (length l) ?rest" and "toLowerCase lvl = l"
    by simp_all
  with m t ws l(1) have "s = m @ ?ws @ lvl @ drop (length l) ?rest \<and> toLowerCase m = ''confidence:''
           \<and> list_all isSpace ?ws \<and> toLowerCase lvl \<in> {''low'', ''medium'', ''high''}"
    by (metis append.assoc)
  then show ?thesis by blast
qed


lemma followups_at_marker:
  assumes m: "toLowerCase m = ''follow_ups:''"
    and ws: "list_all isSpace ws"
    and x: "\<not> isSpace x"
  shows "followups_at (m @ ws @ x # post) = Some (takeWhile (\<lambda>c. \<not> isLineTerminator c) (x # post))"
proof -
  from keyword_first [OF m, of "ws @ x # post", unfolded followups_kw_length]
  have kw: "startsWith (toLowerCase (m @ ws @ x # post)) ''follow_ups:''"
    and after: "drop 11 (m @ ws @ x # post) = ws @ x # post"
    by blast+
  have rest: "dropWhile isSpace (ws @ x # post) = x # post"
    using ws x by (rule all_space_dropWhile)
  show ?thesis
    unfolding followups_at_def Let_def after rest using kw by simp
qed

lemma followups_at_keyword:
  "followups_at s = Some cap \<Longrightarrow> startsWith (toLowerCase s) ''follow_ups:''"
  by (simp add: followups_at_def split: if_splits)

lemma followups_at_text:
  assumes "followups_at s = Some cap" and "dropWhile isSpace (drop 11 s) \<noteq> []"
  shows "\<exists>m ws x post. s = m @ ws @ x # post \<and> toLowerCase m = ''follow_ups:''
           \<and> list_all isSpace ws \<and> \<not> isSpace x
           \<and> cap = takeWhile (\<lambda>c. \<not> isLineTerminator c) (x # post)"
proof -
  have kw: "startsWith (toLowerCase s) ''follow_ups:''"
    using assms(1) by (rule followups_at_keyword)
  from split_keyword [OF kw, unfolded followups_kw_length]
  obtain m where m: "s = m @ drop 11 s" "toLowerCase m = ''follow_ups:''"
    by blast
  let ?t = "drop 11 s"
  let ?ws = "takeWhile isSpace ?t"
  from assms(2) obtain x post where rest: "dropWhile isSpace ?t = x # post"
    by (cases "dropWhile isSpace ?t") auto
  have x: "\<not> isSpace x"
    using rest by (metis hd_dropWhile list.sel(1) list.distinct(1))
  have ws: "list_all isSpace ?ws"
    by (simp add: list_all_iff) (metis set_takeWhileD)
  have "?t = ?ws @ x # post"
    using rest by (metis takeWhile_dropWhile_id)
  with m(1) have s: "s = m @ ?ws @ x # post" by simp
  have "followups_at s = Some (takeWhile (\<lambda>c. \<not> isLineTerminator c) (x # post))"
    unfolding followups_at_def Let_def rest using kw by simp
  with assms(1) have "cap = takeWhile (\<lambda>c. \<not> isLineTerminator c) (x # post)" by simp
  with s m(2) ws x show ?thesis by blast
qed

lemma blank_group:
  assumes "isSpace c"
  shows "filter (\<lambda>q. length q > 0) (map trim (split_on (CHR ''|'') [c])) = []"
proof -
  have "c \<noteq> CHR ''|''"
    using assms by (auto simp: isSpace_def)
  with assms show ?thesis
    by (simp add: split_on_def trim_def)
qed

lemma followups_at_blank:
  assumes "followups_at s = Some cap" and "dropWhile isSpace (drop 11 s) = []"
  shows "filter (\<lambda>q. length q > 0) (map trim (split_on (CHR ''|'') cap)) = []"
proof -
  have kw: "startsWith (toLowerCase s) ''follow_ups:''"
    using assms(1) by (rule followups_at_keyword)
  let ?ends = "filter (\<lambda>c. \<not> isLineTerminator c) (rev (drop 11 s))"
  have "followups_at s = (case ?ends of [] \<Rightarrow> None | c # _ \<Rightarrow> Some [c])"
    unfolding followups_at_def Let_def assms(2) using kw by simp
  with assms(1) obtain c cs where c: "?ends = c # cs" "cap = [c]"
    by (cases ?ends) auto
  have "c \<in> set ?ends" using c(1) by simp
  then have "c \<in> set (drop 11 s)" by simp
  moreover have "\<forall>y \<in> set (drop 11 s). isSpace y"
    using assms(2) by (simp add: dropWhile_eq_Nil_conv)
  ultimately have "isSpace c" by blast
  with c(2) show ?thesis using blank_group [of c] by simp
qed

lemma marker_ahead:
  assumes "length m = 11" and "k \<le> length pre"
  shows "x \<in> set (drop 11 (drop k (pre @ m @ ws @ x # post)))"
proof -
  have "drop 11 (drop k (pre @ m @ ws @ x # post)) = drop (k + 11) ((pre @ m) @ ws @ x # post)"
    by (simp only: drop_drop add.commute append_assoc)
  also have "\<dots> = drop (k + 11) (pre @ m) @ ws @ x # post"
    using assms by (subst drop_append) simp
  finally show ?thesis by simp
qed

lemma suffix_split: "k \<le> length r \<Longrightarrow> drop k r = s \<Longrightarrow> r = take k r @ s \<and> length (take k r) = k"
  by auto


lemma no_confidence_marker:
  assumes "\<not> (\<exists>pre m ws lvl post. confidence_marker r pre m ws lvl post)"
  shows "regex_exec confidence_at r = None"
proof (rule ccontr)
  assume "regex_exec confidence_at r \<noteq> None"
  then obtain lvl where "regex_exec confidence_at r = Some lvl" by auto
  from regex_exec_Some [OF this] obtain k where k: "k \<le> length r"
    "confidence_at (drop k r) = Some lvl" by blast
  from confidence_at_Some [OF k(2)] obtain m ws post where
    "drop k r = m @ ws @ lvl @ post" "toLowerCase m = ''confidence:''"
    "list_all isSpace ws" "toLowerCase lvl \<in> {''low'', ''medium'', ''high''}" by blast
  with suffix_split [OF k(1)] have "confidence_marker r (take k r) m ws lvl post"
    by (simp add: confidence_marker_def)
  with assms show False by blast
qed

lemma first_confidence_marker:
  assumes "confidence_marker r pre0 m0 ws0 lvl0 post0"
  shows "\<exists>pre m ws lvl post. confidence_marker r pre m ws lvl post
           \<and> (\<forall>pre' m' ws' lvl' post'. confidence_marker r pre' m' ws' lvl' post'
                 \<longrightarrow> length pre \<le> length pre')
           \<and> regex_exec confidence_at r = Some lvl"
proof -
  have here: "confidence_at (drop (length pre') r) = Some lvl'"
    if "confidence_marker r pre' m' ws' lvl' post'" for pre' m' ws' lvl' post'
    using that confidence_at_marker [of m' ws' lvl' post'] by (simp add: confidence_marker_def)
  have inside: "length pre' \<le> length r"
    if "confidence_marker r pre' m' ws' lvl' post'" for pre' m' ws' lvl' post'
    using that by (simp add: confidence_marker_def)
  have "regex_exec confidence_at r \<noteq> None"
  proof
    assume "regex_exec confidence_at r = None"
    then have "\<forall>k \<le> length r. confidence_at (drop k r) = None"
      by (rule regex_exec_None [THEN iffD1])
    then have "length pre0 \<le> length r \<longrightarrow> confidence_at (drop (length pre0) r) = None"
      by (rule spec)
    with inside [OF assms] have "confidence_at (drop (length pre0) r) = None"
      by (rule rev_mp)
    with here [OF assms] show False by simp
  qed
  then obtain lvl where found: "regex_exec confidence_at r = Some lvl" by auto
  from regex_exec_Some [OF this] obtain k where k: "k \<le> length r"
    "confidence_at (drop k r) = Some lvl" "\<forall>j < k. confidence_at (drop j r) = None" by blast
  from confidence_at_Some [OF k(2)] obtain m ws post where
    "drop k r = m @ ws @ lvl @ post" "toLowerCase m = ''confidence:''"
    "list_all isSpace ws" "toLowerCase lvl \<in> {''low'', ''medium'', ''high''}" by blast
  with suffix_split [OF k(1)] have marker: "confidence_marker r (take k r) m ws lvl post"
    by (simp add: confidence_marker_def)
  have first: "length (take k r) \<le> length pre'"
    if "confidence_marker r pre' m' ws' lvl' post'" for pre' m' ws' lvl' post'
  proof (rule ccontr)
    assume "\<not> length (take k r) \<le> length pre'"
    with k(1) have "length pre' < k" by simp
    with k(3) here [OF that] show False by simp
  qed
  from marker first found show ?thesis by blast
qed

lemma level_value_parse:
  assumes "regex_exec confidence_at r = Some lvl"
    and "toLowerCase lvl \<in> {''low'', ''medium'', ''high''}"
  shows "parseConfidence r = level_value (toLowerCase lvl)"
  using assms by (auto simp: parseConfidence_def level_value_def Let_def)

lemma no_followups_marker:
  assumes "\<not> (\<exists>pre m ws x post. followups_marker r pre m ws x post)"
  shows "parseFollowUps r = []"
proof (cases "regex_exec followups_at r")
  case None
  then show ?thesis by (simp add: parseFollowUps_def)
next
  case (Some cap)
  from regex_exec_Some [OF Some] obtain k where k: "k \<le> length r"
    "followups_at (drop k r) = Some cap" by blast
  have "dropWhile isSpace (drop 11 (drop k r)) = []"
  proof (rule ccontr)
    assume "dropWhile isSpace (drop 11 (drop k r)) \<noteq> []"
    from followups_at_text [OF k(2) this] obtain m ws x post where
      "drop k r = m @ ws @ x # post" "toLowerCase m = ''follow_ups:''"
      "list_all isSpace ws" "\<not> isSpace x" by blast
    with suffix_split [OF k(1)] have "followups_marker r (take k r) m ws x post"
      by (simp add: followups_marker_def)
    with assms show False by blast
  qed
  from followups_at_blank [OF k(2) this] Some show ?thesis
    by (simp add: parseFollowUps_def)
qed

lemma first_followups_marker:
  assumes "followups_marker r pre0 m0 ws0 x0 post0"
  shows "\<exists>pre m ws x post. followups_marker r pre m ws x post
           \<and> (\<forall>pre' m' ws' x' post'. followups_marker r pre' m' ws' x' post'
                 \<longrightarrow> length pre \<le> length pre')
           \<and> parseFollowUps r =
               filter (\<lambda>q. q \<noteq> [])
                 (map trim (split_on (CHR ''|'') (takeWhile (\<lambda>c. \<not> isLineTerminator c) (x # post))))"
proof -
  have here: "followups_at (drop (length pre') r) \<noteq> None"
    if "followups_marker r pre' m' ws' x' post'" for pre' m' ws' x' post'
    using that followups_at_marker [of m' ws' x' post'] by (simp add: followups_marker_def)
  have inside0: "length pre0 \<le> length r"
    using assms by (simp add: followups_marker_def)
  have "regex_exec followups_at r \<noteq> None"
  proof
    assume "regex_exec followups_at r = None"
    then have "\<forall>k \<le> length r. followups_at (drop k r) = None"
      by (rule regex_exec_None [THEN iffD1])
    then have "length pre0 \<le> length r \<longrightarrow> followups_at (drop (length pre0) r) = None"
      by (rule spec)
    with inside0 have "followups_at (drop (length pre0) r) = None"
      by (rule rev_mp)
    with here [OF assms] show False by simp
  qed
  then obtain cap where found: "regex_exec followups_at r = Some cap" by auto
  from regex_exec_Some [OF this] obtain k where k: "k \<le> length r"
    "followups_at (drop k r) = Some cap" "\<forall>j < k. followups_at (drop j r) = None" by blast
  have k0: "k \<le> length pre0"
  proof (rule ccontr)
    assume "\<not> k \<le> length pre0"
    then have "length pre0 < k" by simp
    with k(3) here [OF assms] show False by simp
  qed
  have len0: "length m0 = 11"
    using assms length_toLowerCase [of m0] by (simp add: followups_marker_def)
  have "x0 \<in> set (drop 11 (drop k r))"
    using marker_ahead [OF len0 k0, of x0 ws0 post0] assms by (simp add: followups_marker_def)
  moreover have "\<not> isSpace x0"
    using assms by (simp add: followups_marker_def)
  ultimately have nonblank: "dropWhile isSpace (drop 11 (drop k r)) \<noteq> []"
    by (auto simp: dropWhile_eq_Nil_conv)
  from followups_at_text [OF k(2) nonblank] obtain m ws x post where parts:
    "drop k r = m @ ws @ x # post" "toLowerCase m = ''follow_ups:''"
    "list_all isSpace ws" "\<not> isSpace x"
    "cap = takeWhile (\<lambda>c. \<not> isLineTerminator c) (x # post)" by blast
  with suffix_split [OF k(1)] have marker: "followups_marker r (take k r) m ws x post"
    by (simp add: followups_marker_def)
  have first: "length (take k r) \<le> length pre'"
    if "followups_marker r pre' m' ws' x' post'" for pre' m' ws' x' post'
  proof (rule ccontr)
    assume "\<not> length (take k r) \<le> length pre'"
    with k(1) have "length pre' < k" by simp
    with k(3) here [OF that] show False by simp
  qed
  have "parseFollowUps r =
          filter (\<lambda>q. q \<noteq> [])
            (map trim (split_on (CHR ''|'') (takeWhile (\<lambda>c. \<not> isLineTerminator c) (x # post))))"
    using found parts(5) by (simp add: parseFollowUps_def)
  with marker first show ?thesis by blast
qed

lemma confidence_marker_found:
  assumes "confidence_marker r pre m ws lvl post"
  shows "regex_exec confidence_at r \<noteq> None"
  using first_confidence_marker [OF assms] by auto

lemma followups_marker_found:
  assumes "followups_marker r pre m ws x post"
  shows "regex_exec followups_at r \<noteq> None"
proof
  assume "regex_exec followups_at r = None"
  then have "\<forall>k \<le> length r. followups_at (drop k r) = None"
    by (rule regex_exec_None [THEN iffD1])
  then have "length pre \<le> length r \<longrightarrow> followups_at (drop (length pre) r) = None"
    by (rule spec)
  moreover have "length pre \<le> length r"
    using assms by (simp add: followups_marker_def)
  ultimately have "followups_at (drop (length pre) r) = None"
    by (rule mp)
  with assms followups_at_marker [of m ws x post] show False
    by (simp add: followups_marker_def)
qed

text \<open>
  Claim C9. A response that holds no confidence marker (the keyword \<open>CONFIDENCE:\<close>,
  whitespace, one of low, medium, high; letters in any case, anywhere in the text) gets
  the default confidence 0.5, and one that holds no follow-up marker with text (the
  keyword \<open>FOLLOW_UPS:\<close>, whitespace, a character that is not whitespace) gets the empty
  list of follow-ups. Otherwise the confidence is the value of the level of the first
  confidence marker (0.3, 0.6, 0.9), and the follow-ups are the text after the first
  follow-up marker up to the end of its line, cut at the pipes, trimmed, the empty
  pieces dropped.
\<close>

theorem marker_lines:
  "(\<not> (\<exists>pre m ws lvl post. confidence_marker r pre m ws lvl post) \<longrightarrow> parseConfidence r = 5 / 10)
   \<and> (\<not> (\<exists>pre m ws x post. followups_marker r pre m ws x post) \<longrightarrow> parseFollowUps r = [])
   \<and> ((\<exists>pre m ws lvl post. confidence_marker r pre m ws lvl post) \<longrightarrow>
        (\<exists>pre m ws lvl post. confidence_marker r pre m ws lvl post
           \<and> (\<forall>pre' m' ws' lvl' post'. confidence_marker r pre' m' ws' lvl' post'
                 \<longrightarrow> length pre \<le> length pre')
           \<and> parseConfidence r = level_value (toLowerCase lvl)))
   \<and> ((\<exists>pre m ws x post. followups_marker r pre m ws x post) \<longrightarrow>
        (\<exists>pre m ws x post. followups_marker r pre m ws x post
           \<and> (\<forall>pre' m' ws' x' post'. followups_marker r pre' m' ws' x' post'
                 \<longrightarrow> length pre \<le> length pre')
           \<and> parseFollowUps r =
               filter (\<lambda>q. q \<noteq> [])
                 (map trim (split_on (CHR ''|'') (takeWhile (\<lambda>c. \<not> isLineTerminator c) (x # post))))))"
proof (intro conjI impI)
  assume "\<not> (\<exists>pre m ws lvl post. confidence_marker r pre m ws lvl post)"
  then show "parseConfidence r = 5 / 10"
    by (simp add: parseConfidence_def no_confidence_marker)
next
  assume "\<not> (\<exists>pre m ws x post. followups_marker r pre m ws x post)"
  then show "parseFollowUps r = []"
    by (rule no_followups_marker)
next
  assume "\<exists>pre m ws lvl post. confidence_marker r pre m ws lvl post"
  then obtain pre0 m0 ws0 lvl0 post0 where "confidence_marker r pre0 m0 ws0 lvl0 post0"
    by blast
  from first_confidence_marker [OF this] obtain pre m ws lvl post where
    marker: "confidence_marker r pre m ws lvl post"
    and first: "\<forall>pre' m' ws' lvl' post'. confidence_marker r pre' m' ws' lvl' post'
                 \<longrightarrow> length pre \<le> length pre'"
    and found: "regex_exec confidence_at r = Some lvl"
    by blast
  from marker have "toLowerCase lvl \<in> {''low'', ''medium'', ''high''}"
    by (simp add: confidence_marker_def)
  with found have "parseConfidence r = level_value (toLowerCase lvl)"
    by (rule level_value_parse)
  with marker first show "\<exists>pre m ws lvl post. confidence_marker r pre m ws lvl post
           \<and> (\<forall>pre' m' ws' lvl' post'. confidence_marker r pre' m' ws' lvl' post'
                 \<longrightarrow> length pre \<le> length pre')
           \<and> parseConfidence r = level_value (toLowerCase lvl)"
    by blast
next
  assume "\<exists>pre m ws x post. followups_marker r pre m ws x post"
  then obtain pre0 m0 ws0 x0 post0 where "followups_marker r pre0 m0 ws0 x0 post0"
    by blast
  then show "\<exists>pre m ws x post. followups_marker r pre m ws x post
           \<and> (\<forall>pre' m' ws' x' post'. followups_marker r pre' m' ws' x' post'
                 \<longrightarrow> length pre \<le> length pre')
           \<and> parseFollowUps r =
               filter (\<lambda>q. q \<noteq> [])
                 (map trim (split_on (CHR ''|'') (takeWhile (\<lambda>c. \<not> isLineTerminator c) (x # post))))"
    by (rule first_followups_marker)
qed

theorem marker_lines_witness:
  "parseConfidence ex_plain = 5 / 10
   \<and> parseFollowUps ex_plain = []
   \<and> confidence_marker ex_marked ''It runs on port 8080.\<newline>'' ''CONFIDENCE:'' '' '' ''High''
         ''\<newline>FOLLOW_UPS: Which host? | Who owns it?''
   \<and> parseConfidence ex_marked = 9 / 10
   \<and> followups_marker ex_marked ''It runs on port 8080.\<newline>CONFIDENCE: High\<newline>''
         ''FOLLOW_UPS:'' '' '' (CHR ''W'') ''hich host? | Who owns it?''
   \<and> parseFollowUps ex_marked = [''Which host?'', ''Who owns it?'']"
proof -
  have "regex_exec confidence_at ex_plain = None"
    by code_simp
  then have no_conf: "\<not> (\<exists>pre m ws lvl post. confidence_marker ex_plain pre m ws lvl post)"
    using confidence_marker_found by blast
  have "regex_exec followups_at ex_plain = None"
    by code_simp
  then have no_follow: "\<not> (\<exists>pre m ws x post. followups_marker ex_plain pre m ws x post)"
    using followups_marker_found by blast
  from marker_lines [of ex_plain] no_conf no_follow
  have plain: "parseConfidence ex_plain = 5 / 10" "parseFollowUps ex_plain = []"
    by blast+
  have conf: "confidence_marker ex_marked ''It runs on port 8080.\<newline>'' ''CONFIDENCE:'' '' '' ''High''
         ''\<newline>FOLLOW_UPS: Which host? | Who owns it?''"
    by code_simp
  have high: "parseConfidence ex_marked = 9 / 10"
    by code_simp
  have follow: "followups_marker ex_marked ''It runs on port 8080.\<newline>CONFIDENCE: High\<newline>''
         ''FOLLOW_UPS:'' '' '' (CHR ''W'') ''hich host? | Who owns it?''"
    by code_simp
  have ups: "parseFollowUps ex_marked = [''Which host?'', ''Who owns it?'']"
    by code_simp
  from plain conf high follow ups show ?thesis
    by blast
qed

section \<open>Feedback analysis: weak areas\<close>





















end
